theory Spec2Isabelle
  imports Main "HOL-Library.Sublist"
begin

section \<open>Git Grep: decoding the tool's output (src/plugins/git/gitgrep.cpp)\<close>

text \<open>
  A \<open>QString\<close> is modelled as a \<open>string\<close>: one \<open>char\<close> per code unit. Indices and
  lengths are C++ \<open>int\<close>s in the source; they are \<open>int\<close> here, with \<open>-1\<close> the
  "not found" value of \<open>indexOf\<close>, as in the source.
\<close>

subsection \<open>The QString operations the runner uses\<close>

definition NUL :: char where
  "NUL = CHR 0x00"

definition ESC :: char where
  "ESC = CHR 0x1B"

definition LF :: char where
  "LF = CHR 0x0A"

definition CR :: char where
  "CR = CHR 0x0D"

text \<open>
  \<open>findSub sub s\<close> is the least position at which \<open>sub\<close> occurs in \<open>s\<close>, if any.
\<close>

fun findSub :: "string \<Rightarrow> string \<Rightarrow> nat option" where
  "findSub sub [] = (if sub = [] then Some 0 else None)"
| "findSub sub (c # cs) =
     (if prefix sub (c # cs) then Some 0 else map_option Suc (findSub sub cs))"

text \<open>
  \<open>QString::indexOf(str, from)\<close>: the index of the first occurrence of \<open>str\<close> at or after
  \<open>from\<close>, or \<open>-1\<close>. A negative \<open>from\<close> counts from the end of the string; every call of
  the runner passes \<open>from \<ge> 0\<close>.
\<close>

definition indexOf :: "string \<Rightarrow> string \<Rightarrow> int \<Rightarrow> int" where
  "indexOf s str from =
     (let l = int (length s);
          f = (if from < 0 then from + l else from)
      in if f < 0 \<or> int (length str) + f > l then -1
         else (case findSub str (drop (nat f) s) of
                 None \<Rightarrow> -1
               | Some i \<Rightarrow> f + int i))"

text \<open>\<open>QString::left(n)\<close>: the whole string when \<open>n\<close> is negative or not less than the size.\<close>

definition left :: "string \<Rightarrow> int \<Rightarrow> string" where
  "left s n = (if n < 0 \<or> n \<ge> int (length s) then s else take (nat n) s)"

text \<open>
  \<open>QString::mid(position, n)\<close>, with the clipping of \<open>QContainerImplHelper::mid\<close>: a
  negative \<open>n\<close> (the default is \<open>-1\<close>) or one that passes the end takes the rest of the
  string.
\<close>

definition mid :: "string \<Rightarrow> int \<Rightarrow> int \<Rightarrow> string" where
  "mid s position n =
     (let l = int (length s)
      in if position > l then []
         else if position < 0 then
           (if n < 0 \<or> n + position \<ge> l then s
            else if n + position \<le> 0 then []
            else take (nat (n + position)) s)
         else if n < 0 \<or> n > l - position then drop (nat position) s
         else take (nat n) (drop (nat position) s))"

definition startsWith :: "string \<Rightarrow> string \<Rightarrow> bool" where
  "startsWith s p = prefix p s"

text \<open>\<open>QString::remove(0, len)\<close>, as the runner calls it (position 0).\<close>

definition remove_front :: "string \<Rightarrow> int \<Rightarrow> string" where
  "remove_front s len = (if len \<le> 0 then s else drop (nat len) s)"

text \<open>
  \<open>QString::toInt()\<close> in base 10: surrounding white space is skipped, one sign is allowed,
  and the result is 0 when the text is not a number or does not fit a 32-bit \<open>int\<close>.
  White space is what \<open>QChar::isSpace\<close> accepts: the blank, U+0009 to U+000D, U+0085
  and U+00A0 (its other separators lie beyond the code units of a \<open>char\<close>).
\<close>

definition isSpace :: "char \<Rightarrow> bool" where
  "isSpace c = (c \<in> {CHR '' '', CHR 0x09, CHR 0x0A, CHR 0x0B, CHR 0x0C, CHR 0x0D,
                       CHR 0x85, CHR 0xA0})"

definition isDigit :: "char \<Rightarrow> bool" where
  "isDigit c = (48 \<le> (of_char c :: nat) \<and> (of_char c :: nat) \<le> 57)"

definition digitValue :: "char \<Rightarrow> int" where
  "digitValue c = int (of_char c) - 48"

definition trimmed :: "string \<Rightarrow> string" where
  "trimmed s = rev (dropWhile isSpace (rev (dropWhile isSpace s)))"

definition digitsValue :: "string \<Rightarrow> int" where
  "digitsValue ds = foldl (\<lambda>acc c. 10 * acc + digitValue c) 0 ds"

definition toInt :: "string \<Rightarrow> int" where
  "toInt s =
     (let t = trimmed s;
          neg = (t \<noteq> [] \<and> hd t = CHR ''-'');
          ds = (if t \<noteq> [] \<and> (hd t = CHR ''-'' \<or> hd t = CHR ''+'') then tl t else t);
          v = (if neg then - digitsValue ds else digitsValue ds)
      in if ds = [] \<or> \<not> list_all isDigit ds then 0
         else if v < - (2 ^ 31) \<or> v > 2 ^ 31 - 1 then 0
         else v)"

subsection \<open>Search results and the runner\<close>

text \<open>
  Modelled from the spec: the class \<open>Utils::FileSearchResult\<close> is declared in
  \<open>utils/filesearch.h\<close>, not in \<open>gitgrep.cpp\<close>. It is the spec's MatchRecord; the
  members are the five that \<open>processLine\<close> assigns (\<open>regexpCapturedTexts\<close>, which the
  runner never touches, is left out). A \<open>FileSearchResultList\<close> is a list of them.
\<close>

record FileSearchResult =
  fileName :: string
  lineNumber :: int
  matchingLine :: string
  matchStart :: int
  matchLength :: int

text \<open>The members of \<open>GitGrepRunner\<close> that \<open>processLine\<close> reads.\<close>

record GitGrepRunner =
  m_directory :: string
  m_ref :: string

definition boldRed :: string where
  "boldRed = [ESC, CHR ''['', CHR ''1'', CHR '';'', CHR ''3'', CHR ''1'', CHR ''m'']"

definition resetColor :: string where
  "resetColor = [ESC, CHR ''['', CHR ''m'']"

text \<open>
  The \<open>for (;;)\<close> loop of \<open>processLine\<close>: it leaves through the first \<open>break\<close> when there
  is no start marker, through the \<open>break\<close> of \<open>QTC_ASSERT\<close> when a start marker has no end
  marker after it, and otherwise splices the pair out and goes round again.
\<close>

function (sequential) scanMatches :: "string \<Rightarrow> (int \<times> int) list \<Rightarrow> string \<times> (int \<times> int) list" where
  "scanMatches text matches =
     (let matchStart = indexOf text boldRed 0
      in if matchStart = -1 then (text, matches)
         else let matchTextStart = matchStart + int (length boldRed);
                  matchEnd = indexOf text resetColor matchTextStart
              in if matchEnd = -1 then (text, matches)
                 else let matchLength = matchEnd - matchTextStart
                      in scanMatches
                           (left text matchStart @ mid text matchTextStart matchLength
                              @ mid text (matchEnd + int (length resetColor)) (-1))
                           (matches @ [(matchStart, matchLength)]))"
  by pat_completeness auto

lemma findSub_Some:
  "findSub sub s = Some i \<Longrightarrow> i + length sub \<le> length s \<and> take (length sub) (drop i s) = sub"
proof (induction s arbitrary: i)
  case Nil
  then show ?case by (simp split: if_splits)
next
  case (Cons c cs)
  show ?case
  proof (cases "prefix sub (c # cs)")
    case True
    with Cons.prems have "i = 0" by simp
    with True prefix_length_le [of sub "c # cs"] show ?thesis
      by (auto simp: prefix_def)
  next
    case False
    with Cons.prems obtain j where j: "findSub sub cs = Some j" "i = Suc j"
      by auto
    from Cons.IH [OF j(1)] j(2) show ?thesis by simp
  qed
qed

lemma indexOf_found:
  assumes "indexOf s str from = r" "r \<noteq> -1" "0 \<le> from"
  shows "from \<le> r \<and> r + int (length str) \<le> int (length s)
         \<and> take (length str) (drop (nat r) s) = str"
proof -
  from assms obtain i where i: "findSub str (drop (nat from) s) = Some i" "r = from + int i"
    and le: "int (length str) + from \<le> int (length s)"
    by (auto simp: indexOf_def Let_def split: if_splits option.splits)
  from findSub_Some [OF i(1)] have
    b: "i + length str \<le> length s - nat from"
    and t: "take (length str) (drop i (drop (nat from) s)) = str"
    by simp_all
  from assms(3) i(2) have n: "nat r = nat from + i" by simp
  from b assms(3) le i(2) have "r + int (length str) \<le> int (length s)" by linarith
  moreover from t n have "take (length str) (drop (nat r) s) = str"
    by (simp add: add.commute)
  ultimately show ?thesis using i(2) by simp
qed

termination scanMatches
proof (relation "measure (\<lambda>(text, matches). length text)", goal_cases)
  case 1
  show ?case by simp
next
  case (2 t ms matchStart matchTextStart matchEnd matchLength)
  from indexOf_found [of t boldRed 0 matchStart] 2
  have s: "0 \<le> matchStart" "matchStart + int (length boldRed) \<le> int (length t)"
    by simp_all
  from indexOf_found [of t resetColor matchTextStart matchEnd] 2 s
  have e: "matchTextStart \<le> matchEnd" "matchEnd + int (length resetColor) \<le> int (length t)"
    by simp_all
  from s e 2 show ?case
    by (simp add: left_def mid_def Let_def boldRed_def resetColor_def)
qed

declare scanMatches.simps [simp del]

text \<open>
  \<open>processLine(line, resultList)\<close>: the records of one line are appended to
  \<open>resultList\<close>, one per entry of \<open>matches\<close>, all with the same file name, line number
  and final \<open>text\<close>.
\<close>

definition processLine :: "GitGrepRunner \<Rightarrow> string \<Rightarrow> FileSearchResult list \<Rightarrow> FileSearchResult list" where
  "processLine r line resultList =
     (if line = [] then resultList
      else let lineSeparator = indexOf line [NUL] 0;
               filePath = left line lineSeparator;
               filePath = (if m_ref r \<noteq> [] \<and> startsWith filePath (m_ref r)
                           then remove_front filePath (int (length (m_ref r)))
                           else filePath);
               single_fileName = m_directory r @ ''/'' @ filePath;
               textSeparator = indexOf line [NUL] (lineSeparator + 1);
               single_lineNumber =
                 toInt (mid line (lineSeparator + 1) (textSeparator - lineSeparator - 1));
               scanned = scanMatches (mid line (textSeparator + 1) (-1)) []
           in resultList @
              map (\<lambda>match. \<lparr>fileName = single_fileName, lineNumber = single_lineNumber,
                              matchingLine = fst scanned,
                              matchStart = fst match, matchLength = snd match\<rparr>)
                  (snd scanned))"

subsection \<open>The future interface, the text stream and \<open>read\<close>\<close>

text \<open>
  \<open>QFutureInterface<FileSearchResultList>\<close> of the Qt library: the cancellation flag
  and the batches reported so far. \<open>reportResult\<close> returns without storing anything
  once the future is canceled, as Qt's implementation does under its mutex;
  \<open>reportCanceled\<close> sets the flag.
\<close>

record FutureInterface =
  canceled :: bool
  results :: "FileSearchResult list list"

definition isCanceled :: "FutureInterface \<Rightarrow> bool" where
  "isCanceled fi = canceled fi"

definition reportResult :: "FutureInterface \<Rightarrow> FileSearchResult list \<Rightarrow> FutureInterface" where
  "reportResult fi resultList =
     (if canceled fi then fi else fi\<lparr>results := results fi @ [resultList]\<rparr>)"

definition reportCanceled :: "FutureInterface \<Rightarrow> FutureInterface" where
  "reportCanceled fi = fi\<lparr>canceled := True\<rparr>"

text \<open>
  The caller cancels from another thread. That thread is a schedule here: \<open>Some n\<close> says
  that the flag is still clear at the next \<open>n\<close> looks at the future's state and set from
  then on, \<open>None\<close> that no cancellation is on its way. \<open>observe\<close> is one look.
\<close>

fun observe :: "nat option \<Rightarrow> FutureInterface \<Rightarrow> nat option \<times> FutureInterface" where
  "observe None fi = (None, fi)"
| "observe (Some 0) fi = (None, fi\<lparr>canceled := True\<rparr>)"
| "observe (Some (Suc n)) fi = (Some n, fi)"

text \<open>
  \<open>QTextStream\<close> over a string, as the remaining text. \<open>readLine\<close> takes the text up to
  the next line feed and drops the line feed; a carriage return that ends the line is not
  part of it.
\<close>

definition atEnd :: "string \<Rightarrow> bool" where
  "atEnd stream = (stream = [])"

definition chopCR :: "string \<Rightarrow> string" where
  "chopCR l = (if l \<noteq> [] \<and> last l = CR then butlast l else l)"

definition readLine :: "string \<Rightarrow> string \<times> string" where
  "readLine stream =
     (let l = takeWhile (\<lambda>c. c \<noteq> LF) stream
      in (chopCR l, drop (Suc (length l)) stream))"

text \<open>
  The \<open>while\<close> loop of \<open>read\<close>: \<open>isCanceled\<close> is evaluated only when the stream is not
  at its end.
\<close>

function read_loop ::
  "GitGrepRunner \<Rightarrow> nat option \<Rightarrow> FutureInterface \<Rightarrow> string \<Rightarrow> FileSearchResult list
     \<Rightarrow> nat option \<times> FutureInterface \<times> FileSearchResult list" where
  "read_loop r sched fi stream resultList =
     (if atEnd stream then (sched, fi, resultList)
      else let (sched', fi') = observe sched fi
           in if isCanceled fi' then (sched', fi', resultList)
              else read_loop r sched' fi' (snd (readLine stream))
                     (processLine r (fst (readLine stream)) resultList))"
  by pat_completeness auto
termination
  by (relation "measure (\<lambda>(r, sched, fi, stream, resultList). length stream)")
     (auto simp: atEnd_def readLine_def Let_def)

declare read_loop.simps [simp del]

definition read ::
  "GitGrepRunner \<Rightarrow> nat option \<Rightarrow> FutureInterface \<Rightarrow> string \<Rightarrow> nat option \<times> FutureInterface" where
  "read r sched fi txt =
     (let (sched1, fi1, resultList) = read_loop r sched fi txt []
      in if resultList \<noteq> []
         then (let (sched2, fi2) = observe sched1 fi1 in (sched2, reportResult fi2 resultList))
         else (sched1, fi1))"

subsection \<open>\<open>exec\<close>: the arguments, the run and its classification\<close>

text \<open>The class \<open>GitGrepParameters\<close> of \<open>gitgrep.cpp\<close>.\<close>

record GitGrepParameters =
  ref :: string
  isEnabled :: bool

text \<open>
  Modelled from the spec: \<open>TextEditor::FileFindParameters\<close> and the find flags are
  declared outside \<open>gitgrep.cpp\<close>. They are the spec's QueryConfiguration; the members
  are the ones that \<open>exec\<close> and \<open>openEditor\<close> read (\<open>text\<close> is \<open>searchText\<close>
  here), and the flags are the three that \<open>exec\<close> tests. \<open>flags\<close> is a \<open>QFlags\<close>
  value, the set of the flags that are on, and \<open>flags & f\<close> is membership.
\<close>

datatype FindFlag = FindCaseSensitively | FindWholeWords | FindRegularExpression

record FileFindParameters =
  searchText :: string
  flags :: "FindFlag set"
  nameFilters :: "string list"
  additionalParameters :: string
  extensionParameters :: GitGrepParameters

text \<open>
  Modelled from the spec: the result of \<open>Utils::SynchronousProcessResponse\<close> is
  declared outside \<open>gitgrep.cpp\<close>. Its values are the five cases of the \<open>switch\<close> in
  \<open>exec\<close>: the spec's clean exit (with or without an error status), abnormal
  termination, launch failure and hang.
\<close>

datatype SynchronousProcessResponse =
  Finished | FinishedError | TerminatedAbnormally | StartFailed | Hang

text \<open>The arguments that \<open>exec\<close> builds, append by append.\<close>

definition exec_arguments :: "FileFindParameters \<Rightarrow> string list" where
  "exec_arguments m_parameters =
     (let arguments = [''-c'', ''color.grep.match=bold red'', ''grep'', ''-zn'',
                       ''--color=always''];
          arguments = (if FindCaseSensitively \<notin> flags m_parameters
                       then arguments @ [''-i''] else arguments);
          arguments = (if FindWholeWords \<in> flags m_parameters
                       then arguments @ [''-w''] else arguments);
          arguments = (if FindRegularExpression \<in> flags m_parameters
                       then arguments @ [''-P''] else arguments @ [''-F'']);
          arguments = arguments @ [searchText m_parameters];
          params = extensionParameters m_parameters;
          arguments = (if ref params \<noteq> [] then arguments @ [ref params] else arguments)
      in arguments @ [''--''] @ nameFilters m_parameters)"

text \<open>The runner as the constructor leaves it, and as \<open>exec\<close> has it when the tool starts.\<close>

definition GitGrepRunner_init :: "FileFindParameters \<Rightarrow> GitGrepRunner" where
  "GitGrepRunner_init parameters =
     \<lparr>m_directory = additionalParameters parameters, m_ref = []\<rparr>"

definition exec_runner :: "FileFindParameters \<Rightarrow> GitGrepRunner \<Rightarrow> GitGrepRunner" where
  "exec_runner m_parameters r =
     (let params = extensionParameters m_parameters
      in if ref params \<noteq> [] then r\<lparr>m_ref := ref params @ '':''\<rparr> else r)"

text \<open>
  \<open>runCommand\<close> hands every piece of standard output to \<open>read\<close> as it arrives and then
  returns how the process ended. What the process writes and how it ends are given:
  \<open>chunks\<close> and \<open>resp\<close>.
\<close>

fun run_reads ::
  "GitGrepRunner \<Rightarrow> nat option \<Rightarrow> FutureInterface \<Rightarrow> string list \<Rightarrow> nat option \<times> FutureInterface" where
  "run_reads r sched fi [] = (sched, fi)"
| "run_reads r sched fi (chunk # chunks) =
     (let (sched', fi') = read r sched fi chunk in run_reads r sched' fi' chunks)"

fun classify :: "SynchronousProcessResponse \<Rightarrow> FutureInterface \<Rightarrow> FutureInterface" where
  "classify TerminatedAbnormally fi = reportCanceled fi"
| "classify StartFailed fi = reportCanceled fi"
| "classify Hang fi = reportCanceled fi"
| "classify Finished fi = fi"
| "classify FinishedError fi = fi"

definition exec ::
  "FileFindParameters \<Rightarrow> nat option \<Rightarrow> string list \<Rightarrow> SynchronousProcessResponse
     \<Rightarrow> FutureInterface \<Rightarrow> FutureInterface" where
  "exec m_parameters sched chunks resp fi =
     (let r = exec_runner m_parameters (GitGrepRunner_init m_parameters);
          (sched', fi') = run_reads r sched fi chunks
      in classify resp fi')"

text \<open>
  Modelled from the spec: the ProcessOutcome of the spec, read off the future when the
  run is over. The runner can only report the future as canceled; it has no call that
  reports an error, so \<open>Failed\<close> is never the outcome.
\<close>

datatype ProcessOutcome = Completed | Canceled | Failed string

definition outcome :: "FutureInterface \<Rightarrow> ProcessOutcome" where
  "outcome fi = (if canceled fi then Canceled else Completed)"

subsection \<open>\<open>GitGrep::openEditor\<close>\<close>

text \<open>
  Modelled from the spec: \<open>Core::SearchResultItem\<close> and \<open>Core::IEditor\<close> are declared
  outside \<open>gitgrep.cpp\<close>. Of the item, the members that \<open>openEditor\<close> reads; of the
  editor, what \<open>openEditor\<close> gives it: the spec's read-only view of the content at a
  revision.
\<close>

record SearchResultItem =
  item_path :: "string list"
  item_lineNumber :: int
  item_textMarkPos :: int

record IEditor =
  editor_title :: string
  editor_contents :: string
  editor_line :: int
  editor_column :: int
  editor_temporary :: bool

text \<open>
  What the host answers to the calls of \<open>openEditor\<close>, taken as given:
  \<open>synchronousShow\<close> gives the content of the file at the revision, or nothing when
  \<open>git show\<close> fails; \<open>readFileUTF8\<close> gives the content read from the disk when the
  result is \<open>ReadSuccess\<close>, and nothing otherwise; \<open>showTitle\<close> is the translated
  title. \<open>openEditorWithContents\<close> is taken to return an editor.
\<close>

record Host =
  fromNativeSeparators :: "string \<Rightarrow> string"
  relativeFilePath :: "string \<Rightarrow> string \<Rightarrow> string"
  synchronousShow :: "string \<Rightarrow> string \<Rightarrow> string option"
  readFileUTF8 :: "string \<Rightarrow> string option"
  showTitle :: "string \<Rightarrow> string \<Rightarrow> string"

definition openEditor :: "Host \<Rightarrow> SearchResultItem \<Rightarrow> FileFindParameters \<Rightarrow> IEditor option" where
  "openEditor host item parameters =
     (let params = extensionParameters parameters
      in if \<not> isEnabled params \<or> ref params = [] \<or> item_path item = [] then None
         else let path = fromNativeSeparators host (hd (item_path item));
                  topLevel = additionalParameters parameters;
                  relativePath = relativeFilePath host topLevel path
              in case synchronousShow host topLevel (ref params @ '':./'' @ relativePath) of
                   None \<Rightarrow> None
                 | Some content \<Rightarrow>
                     if content = [] then None
                     else if readFileUTF8 host path = Some content then None
                     else Some \<lparr>editor_title = showTitle host (ref params) relativePath,
                                editor_contents = content,
                                editor_line = item_lineNumber item,
                                editor_column = item_textMarkPos item,
                                editor_temporary = True\<rparr>)"

subsection \<open>The tool's side of the wire format\<close>

text \<open>
  What \<open>git grep --color=always\<close> writes for the text of a line with a match: pieces of
  plain text and matched text, each match between a start and an end marker. A segment
  is the plain text before a match and the matched text; \<open>rest\<close> is what follows the
  last match. \<open>markerFree\<close> is the same line without the markers the tool put in, and
  \<open>spans\<close> are the places of the matches in it, counted from \<open>off\<close>.
\<close>

type_synonym segment = "string \<times> string"

fun colorized :: "segment list \<Rightarrow> string \<Rightarrow> string" where
  "colorized [] rest = rest"
| "colorized ((p, h) # segs) rest = p @ boldRed @ h @ resetColor @ colorized segs rest"

fun markerFree :: "segment list \<Rightarrow> string \<Rightarrow> string" where
  "markerFree [] rest = rest"
| "markerFree ((p, h) # segs) rest = p @ h @ markerFree segs rest"

fun spans :: "int \<Rightarrow> segment list \<Rightarrow> (int \<times> int) list" where
  "spans off [] = []"
| "spans off ((p, h) # segs) =
     (off + int (length p), int (length h))
       # spans (off + int (length p) + int (length h)) segs"

subsection \<open>Chunks and lines\<close>

text \<open>
  The lines that the loop of \<open>read\<close> takes from a text, one \<open>readLine\<close> after the
  other until \<open>atEnd\<close>; and a chunk that ends where a line ends.
\<close>

function linesOf :: "string \<Rightarrow> string list" where
  "linesOf stream =
     (if atEnd stream then [] else fst (readLine stream) # linesOf (snd (readLine stream)))"
  by pat_completeness auto
termination
  by (relation "measure length") (auto simp: atEnd_def readLine_def Let_def)

declare linesOf.simps [simp del]

definition endsLines :: "string \<Rightarrow> bool" where
  "endsLines chunk = (chunk = [] \<or> last chunk = LF)"

section \<open>Properties\<close>

subsection \<open>Searching a string for a marker\<close>

lemma findSub_None: "findSub sub s = None \<longleftrightarrow> \<not> sublist sub s"
  by (induction s) (auto simp: sublist_Cons_right)

lemma findSub_first:
  "c \<notin> set t \<Longrightarrow> \<not> sublist (c # t) p \<Longrightarrow> findSub (c # t) (p @ c # t @ r) = Some (length p)"
proof (induction p)
  case Nil
  then show ?case by simp
next
  case (Cons a p)
  have np: "\<not> prefix (c # t) ((a # p) @ c # t @ r)"
  proof
    assume pr: "prefix (c # t) ((a # p) @ c # t @ r)"
    then have "prefix (c # t) (a # p) \<or> (\<exists>us. us \<noteq> [] \<and> prefix us (c # t @ r) \<and> c # t = (a # p) @ us)"
      by (metis append_Nil2 prefix_append prefix_order.eq_iff)
    then show False
    proof
      assume "prefix (c # t) (a # p)"
      with Cons.prems(2) show False by auto
    next
      assume "\<exists>us. us \<noteq> [] \<and> prefix us (c # t @ r) \<and> c # t = (a # p) @ us"
      then obtain us where us: "us \<noteq> []" "prefix us (c # t @ r)" "c # t = (a # p) @ us"
        by blast
      from us(1,2) have "hd us = c" by (cases us) auto
      with us(1,3) have "c \<in> set t" by (cases us) auto
      with Cons.prems(1) show False by simp
    qed
  qed
  from Cons.prems(2) have "\<not> sublist (c # t) p"
    by (simp add: sublist_Cons_right)
  with Cons.IH Cons.prems(1) have "findSub (c # t) (p @ c # t @ r) = Some (length p)" by simp
  with np show ?case by simp
qed

lemma indexOf_first:
  assumes "c \<notin> set t" "\<not> sublist (c # t) (drop n p)" "n \<le> length p"
  shows "indexOf (p @ c # t @ r) (c # t) (int n) = int (length p)"
proof -
  have "drop n (p @ c # t @ r) = drop n p @ c # t @ r" using assms(3) by simp
  with findSub_first [OF assms(1,2), of r] assms(3) show ?thesis
    by (simp add: indexOf_def Let_def)
qed

lemma indexOf_absent:
  assumes "\<not> sublist str (drop n s)"
  shows "indexOf s str (int n) = -1"
  using assms by (simp add: indexOf_def Let_def findSub_None [symmetric])

lemma indexOf_boldRed:
  assumes "\<not> sublist boldRed q"
  shows "indexOf (q @ boldRed @ r) boldRed 0 = int (length q)"
  using indexOf_first [of ESC "tl boldRed" 0 q r] assms
  by (simp add: boldRed_def ESC_def)

lemma indexOf_resetColor:
  assumes "\<not> sublist resetColor h"
  shows "indexOf (q @ h @ resetColor @ r) resetColor (int (length q)) = int (length q) + int (length h)"
  using indexOf_first [of ESC "tl resetColor" "length q" "q @ h" r] assms
  by (simp add: resetColor_def ESC_def)

lemma left_append: "left (q @ r) (int (length q)) = q"
  by (simp add: left_def)

lemma mid_append: "mid (a @ b @ c) (int (length a)) (int (length b)) = b"
  by (simp add: mid_def Let_def)

lemma mid_rest: "mid (a @ c) (int (length a)) (-1) = c"
  by (simp add: mid_def Let_def)

lemma markerFree_append: "markerFree segs rest = markerFree segs [] @ rest"
  by (induction segs) auto

lemma scanMatches_step:
  assumes "indexOf t boldRed 0 = a" "a \<noteq> -1"
    and "indexOf t resetColor (a + int (length boldRed)) = b" "b \<noteq> -1"
  shows "scanMatches t ms
         = scanMatches (left t a @ mid t (a + int (length boldRed)) (b - (a + int (length boldRed)))
                          @ mid t (b + int (length resetColor)) (-1))
                       (ms @ [(a, b - (a + int (length boldRed)))])"
  using assms by (subst scanMatches.simps) (simp add: Let_def)

lemma scanMatches_segments:
  assumes "\<not> sublist boldRed (pre @ markerFree segs [])"
    and "\<forall>(p, h) \<in> set segs. \<not> sublist resetColor h"
  shows "scanMatches (pre @ colorized segs rest) ms
         = scanMatches (pre @ markerFree segs [] @ rest) (ms @ spans (int (length pre)) segs)"
  using assms
proof (induction segs arbitrary: pre ms)
  case Nil
  then show ?case by simp
next
  case (Cons seg segs)
  obtain p h where seg: "seg = (p, h)" by (cases seg)
  let ?tl = "colorized segs rest"
  let ?q = "pre @ p"
  let ?t = "?q @ boldRed @ h @ resetColor @ ?tl"
  from Cons.prems(1) seg have nq: "\<not> sublist boldRed ?q"
    by (metis append.assoc markerFree.simps(2) sublist_append)
  from Cons.prems(2) seg have nh: "\<not> sublist resetColor h" by simp
  have s: "indexOf ?t boldRed 0 = int (length ?q)"
    using indexOf_boldRed [OF nq] by simp
  have e: "indexOf ?t resetColor (int (length ?q) + int (length boldRed))
           = int (length ?q) + int (length boldRed) + int (length h)"
    using indexOf_resetColor [OF nh, of "?q @ boldRed" ?tl] by (simp add: ac_simps)
  have l: "left ?t (int (length ?q)) = ?q"
    by (rule left_append)
  have m1: "mid ?t (int (length ?q) + int (length boldRed)) (int (length h)) = h"
    using mid_append [of "?q @ boldRed" h "resetColor @ ?tl"] by (simp add: ac_simps)
  have m2: "mid ?t (int (length ?q) + int (length boldRed) + int (length h)
                     + int (length resetColor)) (-1) = ?tl"
    using mid_rest [of "?q @ boldRed @ h @ resetColor" ?tl] by (simp add: ac_simps)
  have step: "scanMatches ?t ms
              = scanMatches (?q @ h @ ?tl) (ms @ [(int (length ?q), int (length h))])"
    using scanMatches_step [OF s _ e _, of ms] l m1 m2 by simp
  from Cons.prems seg have p1: "\<not> sublist boldRed ((pre @ p @ h) @ markerFree segs [])"
    by simp
  from Cons.prems seg have p2: "\<forall>(p, h) \<in> set segs. \<not> sublist resetColor h" by simp
  from Cons.IH [OF p1 p2, of "ms @ [(int (length ?q), int (length h))]"] step seg
  show ?case by (simp add: add.assoc)
qed

subsection \<open>One line\<close>

lemma sublist_single: "sublist [c] p \<longleftrightarrow> c \<in> set p"
  by (induction p) (auto simp: sublist_Cons_right)

lemma processLine_fields:
  assumes "NUL \<notin> set path" "NUL \<notin> set num"
  shows "processLine r (path @ NUL # num @ NUL # body) resultList
         = resultList @
           map (\<lambda>match. \<lparr>fileName = m_directory r @ ''/'' @
                             (if m_ref r \<noteq> [] \<and> prefix (m_ref r) path
                              then drop (length (m_ref r)) path else path),
                           lineNumber = toInt num,
                           matchingLine = fst (scanMatches body []),
                           matchStart = fst match, matchLength = snd match\<rparr>)
               (snd (scanMatches body []))"
proof -
  let ?line = "path @ NUL # num @ NUL # body"
  have a: "indexOf ?line [NUL] 0 = int (length path)"
    using indexOf_first [of NUL "[]" 0 path "num @ NUL # body"] assms(1)
    by (simp add: sublist_single)
  have b: "indexOf ?line [NUL] (int (length path) + 1) = int (length path) + 1 + int (length num)"
    using indexOf_first [of NUL "[]" "length path + 1" "path @ NUL # num" body] assms(2)
    by (simp add: sublist_single ac_simps)
  have l: "left ?line (int (length path)) = path"
    by (rule left_append)
  have m1: "mid ?line (int (length path) + 1) (int (length num)) = num"
    using mid_append [of "path @ [NUL]" num "NUL # body"] by (simp add: ac_simps)
  have m2: "mid ?line (int (length path) + 1 + int (length num) + 1) (-1) = body"
    using mid_rest [of "path @ NUL # num @ [NUL]" body] by (simp add: ac_simps)
  show ?thesis
    unfolding processLine_def Let_def a b l
    using m1 m2 by (simp add: startsWith_def remove_front_def)
qed


lemma scanMatches_no_start:
  assumes "\<not> sublist boldRed t"
  shows "scanMatches t ms = (t, ms)"
  using indexOf_absent [of boldRed 0 t] assms
  by (subst scanMatches.simps) (simp add: Let_def)

lemma scanMatches_unmatched:
  assumes "\<not> sublist boldRed q" "\<not> sublist resetColor tail"
  shows "scanMatches (q @ boldRed @ tail) ms = (q @ boldRed @ tail, ms)"
proof -
  have s: "indexOf (q @ boldRed @ tail) boldRed 0 = int (length q)"
    using indexOf_boldRed [OF assms(1)] by simp
  have "drop (length q + length boldRed) (q @ boldRed @ tail) = tail" by simp
  with indexOf_absent [of resetColor "length q + length boldRed" "q @ boldRed @ tail"] assms(2)
  have e: "indexOf (q @ boldRed @ tail) resetColor (int (length q) + int (length boldRed)) = -1"
    by simp
  show ?thesis
    by (subst scanMatches.simps) (simp add: Let_def s e)
qed

lemma scanMatches_colorized:
  assumes "\<not> sublist boldRed (markerFree segs rest)"
    and "\<forall>(p, h) \<in> set segs. \<not> sublist resetColor h"
  shows "scanMatches (colorized segs rest) [] = (markerFree segs rest, spans 0 segs)"
proof -
  from assms(1) have "\<not> sublist boldRed ([] @ markerFree segs [])"
    by (metis append_Nil markerFree_append sublist_append)
  from scanMatches_segments [OF this assms(2), of rest "[]"]
  have "scanMatches (colorized segs rest) [] = scanMatches (markerFree segs rest) (spans 0 segs)"
    by (simp add: markerFree_append [symmetric])
  with scanMatches_no_start [OF assms(1)] show ?thesis by simp
qed

lemma scanMatches_colorized_unmatched:
  assumes "\<not> sublist boldRed (markerFree segs pre)"
    and "\<forall>(p, h) \<in> set segs. \<not> sublist resetColor h"
    and "\<not> sublist resetColor tail"
  shows "scanMatches (colorized segs (pre @ boldRed @ tail)) []
         = (markerFree segs (pre @ boldRed @ tail), spans 0 segs)"
proof -
  from assms(1) have "\<not> sublist boldRed ([] @ markerFree segs [])"
    by (metis append_Nil markerFree_append sublist_append)
  from scanMatches_segments [OF this assms(2), of "pre @ boldRed @ tail" "[]"]
  have "scanMatches (colorized segs (pre @ boldRed @ tail)) []
        = scanMatches (markerFree segs pre @ boldRed @ tail) (spans 0 segs)"
    using markerFree_append [of segs pre] by simp
  with scanMatches_unmatched [OF assms(1,3)] show ?thesis
    using markerFree_append [of segs pre] markerFree_append [of segs "pre @ boldRed @ tail"]
    by simp
qed

lemma length_spans: "length (spans off segs) = length segs"
  by (induction segs arbitrary: off) auto

lemma spans_bounds:
  "(s, l) \<in> set (spans off segs) \<Longrightarrow>
     off \<le> s \<and> 0 \<le> l \<and> s + l \<le> off + int (length (markerFree segs rest))"
proof (induction segs arbitrary: off)
  case Nil
  then show ?case by simp
next
  case (Cons seg segs)
  obtain p h where seg: "seg = (p, h)" by (cases seg)
  from Cons.prems seg consider "s = off + int (length p)" "l = int (length h)"
    | "(s, l) \<in> set (spans (off + int (length p) + int (length h)) segs)"
    by auto
  then show ?case
  proof cases
    case 1
    with seg show ?thesis by simp
  next
    case 2
    from Cons.IH [OF 2] seg show ?thesis by simp
  qed
qed

lemma spans_ordered:
  "sorted_wrt (\<lambda>a b. fst a + snd a \<le> fst b) (spans off segs)"
proof (induction segs arbitrary: off)
  case Nil
  then show ?case by simp
next
  case (Cons seg segs)
  obtain p h where seg: "seg = (p, h)" by (cases seg)
  have "\<forall>b \<in> set (spans (off + int (length p) + int (length h)) segs).
          off + int (length p) + int (length h) \<le> fst b"
    using spans_bounds [of _ _ "off + int (length p) + int (length h)" segs "[]"] by auto
  with Cons.IH seg show ?case by simp
qed

lemma spans_strict:
  "\<forall>(p, h) \<in> set segs. h \<noteq> [] \<Longrightarrow> sorted_wrt (\<lambda>a b. fst a < fst b) (spans off segs)"
proof (induction segs arbitrary: off)
  case Nil
  then show ?case by simp
next
  case (Cons seg segs)
  obtain p h where seg: "seg = (p, h)" by (cases seg)
  with Cons.prems have h: "h \<noteq> []" by simp
  have "\<forall>b \<in> set (spans (off + int (length p) + int (length h)) segs).
          off + int (length p) + int (length h) \<le> fst b"
    using spans_bounds [of _ _ "off + int (length p) + int (length h)" segs "[]"] by auto
  moreover from h have "0 < int (length h)" by simp
  ultimately have "\<forall>b \<in> set (spans (off + int (length p) + int (length h)) segs).
          off + int (length p) < fst b"
    by (metis add.commute add_strict_increasing less_le_trans order_refl)
  with Cons.IH Cons.prems seg show ?case by simp
qed



lemma readLine_line:
  assumes "LF \<notin> set l"
  shows "readLine (l @ LF # later) = (chopCR l, later)"
proof -
  from assms have "takeWhile (\<lambda>c. c \<noteq> LF) (l @ LF # later) = l"
    by (induction l) auto
  then show ?thesis by (simp add: readLine_def Let_def)
qed

lemma read_loop_line:
  assumes "LF \<notin> set l" "l \<noteq> []" "last l \<noteq> CR" "\<not> canceled fi"
  shows "read_loop r None fi (l @ LF # later) resultList
         = read_loop r None fi later (processLine r l resultList)"
  using assms readLine_line [OF assms(1), of later]
  by (subst read_loop.simps) (simp add: atEnd_def isCanceled_def chopCR_def)

subsection \<open>Claims about one line\<close>

text \<open>
  Where the decoder is exact. The text of a line is \<open>colorized segs rest\<close>: \<open>N\<close>
  matches, each between a start and an end marker. When the text without those markers
  contains no start marker and no matched piece contains an end marker, \<open>processLine\<close>
  appends exactly \<open>N\<close> records. They share the file name, the line number and the line
  text, which is the text without the markers, and their offsets and lengths are the
  places of the matches in that text. The file name is the directory, a slash and the
  path of the line.
\<close>

lemma processLine_spans:
  assumes "NUL \<notin> set path" "NUL \<notin> set num"
    and "\<not> sublist boldRed (markerFree segs rest)"
    and "\<forall>(p, h) \<in> set segs. \<not> sublist resetColor h"
  shows "processLine r (path @ NUL # num @ NUL # colorized segs rest) []
         = map (\<lambda>(s, l). \<lparr>fileName = m_directory r @ ''/'' @
                               (if m_ref r \<noteq> [] \<and> prefix (m_ref r) path
                                then drop (length (m_ref r)) path else path),
                             lineNumber = toInt num,
                             matchingLine = markerFree segs rest,
                             matchStart = s, matchLength = l\<rparr>)
               (spans 0 segs)
         \<and> length (processLine r (path @ NUL # num @ NUL # colorized segs rest) []) = length segs"
  using processLine_fields [OF assms(1,2), of r "colorized segs rest" "[]"]
    scanMatches_colorized [OF assms(3,4)]
  by (simp add: length_spans case_prod_beta)

text \<open>
  The line \<open>a.txt<NUL>10<NUL>foo <start>BAR<end> baz\<close> gives one record: line 10, text
  \<open>foo BAR baz\<close>, offset 4, length 3.
\<close>

lemma processLine_spans_scenario:
  "processLine \<lparr>m_directory = ''/repo'', m_ref = []\<rparr>
     (''a.txt'' @ NUL # ''10'' @ NUL # ''foo '' @ boldRed @ ''BAR'' @ resetColor @ '' baz'') []
   = [\<lparr>fileName = ''/repo/a.txt'', lineNumber = 10, matchingLine = ''foo BAR baz'',
        matchStart = 4, matchLength = 3\<rparr>]"
proof -
  have h1: "NUL \<notin> set ''a.txt''" by code_simp
  have h2: "NUL \<notin> set ''10''" by code_simp
  have h3: "\<not> sublist boldRed (markerFree [(''foo '', ''BAR'')] '' baz'')" by code_simp
  have h4: "\<forall>(p, h) \<in> set [(''foo '', ''BAR'')]. \<not> sublist resetColor h" by code_simp
  have n: "toInt ''10'' = 10" by code_simp
  from processLine_spans [OF h1 h2 h3 h4, of "\<lparr>m_directory = ''/repo'', m_ref = []\<rparr>"] n
  show ?thesis by simp
qed

text \<open>
  Claim C6: a line with \<open>N\<close> well paired matches gives \<open>N\<close> records that share the
  line text, with the offsets and lengths of the matches in the line without the
  markers. The code misses this on the file line \<open>ESC[1;31m x y.\<close> searched for
  \<open>31m\<close> and \<open>y\<close>: the tool writes two well paired matches, at 4 (length 3) and at 10
  (length 1), in the text \<open>ESC[1;31m x y.\<close>. The loop looks for the start marker from
  offset 0 again after each splice. The first splice joins \<open>ESC[1;\<close> and \<open>31m\<close>, the
  loop takes the joined text for a marker and reports the second match at 0 with length
  11; the start marker of the second match then has no end marker left, the assertion
  on pairing fails, and the line text keeps that marker.
\<close>

theorem processLine_rescan_spans:
  "processLine \<lparr>m_directory = ''/repo'', m_ref = []\<rparr>
     (''a.txt'' @ NUL # ''10'' @ NUL #
        colorized [([ESC, CHR ''['', CHR ''1'', CHR '';''], ''31m''), ('' x '', ''y'')] ''.'') []
   = [\<lparr>fileName = ''/repo/a.txt'', lineNumber = 10,
        matchingLine = '' x '' @ boldRed @ ''y.'', matchStart = 4, matchLength = 3\<rparr>,
      \<lparr>fileName = ''/repo/a.txt'', lineNumber = 10,
        matchingLine = '' x '' @ boldRed @ ''y.'', matchStart = 0, matchLength = 11\<rparr>]
   \<and> spans 0 [([ESC, CHR ''['', CHR ''1'', CHR '';''], ''31m''), ('' x '', ''y'')]
       = [(4, 3), (10, 1)]
   \<and> markerFree [([ESC, CHR ''['', CHR ''1'', CHR '';''], ''31m''), ('' x '', ''y'')] ''.''
       = boldRed @ '' x y.''"
  by code_simp




text \<open>
  A second end marker stays in the line text: \<open><start>x<end><end>\<close> gives the line
  text \<open>x<end>\<close>.
\<close>

lemma processLine_keeps_end_marker:
  "map matchingLine
     (processLine \<lparr>m_directory = ''/repo'', m_ref = []\<rparr>
        (''a.txt'' @ NUL # ''10'' @ NUL # boldRed @ ''x'' @ resetColor @ resetColor) [])
   = [''x'' @ resetColor]"
  by code_simp

text \<open>
  Where the records are in order. When the text of a line is \<open>colorized segs rest\<close>,
  the text without those markers contains no start marker and no matched piece contains
  an end marker, the records of the line are in the order of the matches and do not
  overlap: each record starts at or after the end of every earlier one. When no matched
  piece is empty the offsets increase strictly.
\<close>

lemma processLine_records_ordered:
  assumes "NUL \<notin> set path" "NUL \<notin> set num"
    and "\<not> sublist boldRed (markerFree segs rest)"
    and "\<forall>(p, h) \<in> set segs. \<not> sublist resetColor h"
  shows "sorted_wrt (\<lambda>a b. matchStart a + matchLength a \<le> matchStart b)
           (processLine r (path @ NUL # num @ NUL # colorized segs rest) [])
         \<and> ((\<forall>(p, h) \<in> set segs. h \<noteq> []) \<longrightarrow>
              sorted_wrt (\<lambda>a b. matchStart a < matchStart b)
                (processLine r (path @ NUL # num @ NUL # colorized segs rest) []))"
proof -
  let ?f = "\<lambda>(s, l). \<lparr>fileName = m_directory r @ ''/'' @
                               (if m_ref r \<noteq> [] \<and> prefix (m_ref r) path
                                then drop (length (m_ref r)) path else path),
                             lineNumber = toInt num,
                             matchingLine = markerFree segs rest,
                             matchStart = s, matchLength = l\<rparr>"
  from processLine_fields [OF assms(1,2), of r "colorized segs rest" "[]"]
    scanMatches_colorized [OF assms(3,4)]
  have eq: "processLine r (path @ NUL # num @ NUL # colorized segs rest) [] = map ?f (spans 0 segs)"
    by (simp add: case_prod_beta)
  have "sorted_wrt (\<lambda>a b. matchStart a + matchLength a \<le> matchStart b) (map ?f (spans 0 segs))"
    using spans_ordered [of 0 segs] by (simp add: sorted_wrt_map case_prod_beta)
  moreover have "sorted_wrt (\<lambda>a b. matchStart a < matchStart b) (map ?f (spans 0 segs))"
    if "\<forall>(p, h) \<in> set segs. h \<noteq> []"
    using spans_strict [OF that, of 0] by (simp add: sorted_wrt_map case_prod_beta)
  ultimately show ?thesis
    unfolding eq by blast
qed

lemma processLine_records_ordered_example:
  "sorted_wrt (\<lambda>a b. matchStart a + matchLength a \<le> matchStart b)
     (processLine \<lparr>m_directory = ''/repo'', m_ref = []\<rparr>
        (''a.txt'' @ NUL # ''7'' @ NUL # colorized [(''if '', ''x''), ('' < '', ''x'')] ''0'') [])
   \<and> sorted_wrt (\<lambda>a b. matchStart a < matchStart b)
     (processLine \<lparr>m_directory = ''/repo'', m_ref = []\<rparr>
        (''a.txt'' @ NUL # ''7'' @ NUL # colorized [(''if '', ''x''), ('' < '', ''x'')] ''0'') [])
   \<and> map (\<lambda>x. (matchStart x, matchLength x))
     (processLine \<lparr>m_directory = ''/repo'', m_ref = []\<rparr>
        (''a.txt'' @ NUL # ''7'' @ NUL # colorized [(''if '', ''x''), ('' < '', ''x'')] ''0'') [])
     = [(3, 1), (7, 1)]"
proof -
  have h1: "NUL \<notin> set ''a.txt''" by code_simp
  have h2: "NUL \<notin> set ''7''" by code_simp
  have h3: "\<not> sublist boldRed (markerFree [(''if '', ''x''), ('' < '', ''x'')] ''0'')"
    by code_simp
  have h4: "\<forall>(p, h) \<in> set [(''if '', ''x''), ('' < '', ''x'')]. \<not> sublist resetColor h"
    by code_simp
  have h5: "\<forall>(p, h) \<in> set [(''if '', ''x''), ('' < '', ''x'')]. h \<noteq> []"
    by simp
  have n: "map (\<lambda>x. (matchStart x, matchLength x))
     (processLine \<lparr>m_directory = ''/repo'', m_ref = []\<rparr>
        (''a.txt'' @ NUL # ''7'' @ NUL # colorized [(''if '', ''x''), ('' < '', ''x'')] ''0'') [])
     = [(3, 1), (7, 1)]"
    by code_simp
  from processLine_records_ordered [OF h1 h2 h3 h4,
      where r = "\<lparr>m_directory = ''/repo'', m_ref = []\<rparr>"] h5 n
  show ?thesis by blast
qed

text \<open>
  Claim C10: when no matched piece contains a marker and the pairs are not nested, the
  records of a line are in increasing order of offset and do not overlap. The code
  misses this on the file line \<open>ESC[1;31mYZ\<close> searched for \<open>31m\<close> and \<open>Z\<close>: the tool
  writes two well paired matches, at 4 (length 3) and at 8 (length 1). The loop looks for
  the start marker from offset 0 again after each splice, takes the text that the first
  splice joins for a marker, and reports (4, 3) and then (0, 9): the second record
  starts before the first and covers it.
\<close>

theorem processLine_rescan_order:
  "map (\<lambda>x. (matchStart x, matchLength x))
     (processLine \<lparr>m_directory = ''/repo'', m_ref = []\<rparr>
        (''a.txt'' @ NUL # ''7'' @ NUL #
           colorized [([ESC, CHR ''['', CHR ''1'', CHR '';''], ''31m''), (''Y'', ''Z'')] []) [])
   = [(4, 3), (0, 9)]
   \<and> spans 0 [([ESC, CHR ''['', CHR ''1'', CHR '';''], ''31m''), (''Y'', ''Z'')]
       = [(4, 3), (8, 1)]
   \<and> \<not> sorted_wrt (\<lambda>a b. matchStart a + matchLength a \<le> matchStart b)
     (processLine \<lparr>m_directory = ''/repo'', m_ref = []\<rparr>
        (''a.txt'' @ NUL # ''7'' @ NUL #
           colorized [([ESC, CHR ''['', CHR ''1'', CHR '';''], ''31m''), (''Y'', ''Z'')] []) [])"
  by code_simp

text \<open>
  Two empty matches side by side have the same offset: the order of the offsets is strict
  only between matches that are not empty.
\<close>

lemma processLine_empty_matches:
  "map (\<lambda>x. (matchStart x, matchLength x))
     (processLine \<lparr>m_directory = ''/repo'', m_ref = []\<rparr>
        (''a.txt'' @ NUL # ''7'' @ NUL # colorized [([], []), ([], [])] ''x'') [])
   = [(0, 0), (0, 0)]"
  by code_simp

text \<open>
  Claim C3, as the code has it. The text of a line is well paired matches and then, after
  some plain text, a start marker with no end marker after it; the text before that
  marker, without the markers of the pairs, contains no start marker, and no matched
  piece contains an end marker. \<open>processLine\<close> stops scanning at the unmatched marker
  and does not discard the line: it appends one record for each pair before it, none
  when there is no such pair, with the offsets and lengths of the pairs, and the line
  text of these records keeps the unmatched start marker and what follows it. The loop
  of \<open>read\<close>, when the caller does not cancel, then goes on with the lines after it.
\<close>

theorem processLine_unmatched_start:
  assumes "NUL \<notin> set path" "NUL \<notin> set num"
    and "\<not> sublist boldRed (markerFree segs pre)"
    and "\<forall>(p, h) \<in> set segs. \<not> sublist resetColor h"
    and "\<not> sublist resetColor tail"
    and "LF \<notin> set (path @ NUL # num @ NUL # colorized segs (pre @ boldRed @ tail))"
    and "last (path @ NUL # num @ NUL # colorized segs (pre @ boldRed @ tail)) \<noteq> CR"
    and "\<not> canceled fi"
  shows "processLine r (path @ NUL # num @ NUL # colorized segs (pre @ boldRed @ tail)) resultList
         = resultList @
           map (\<lambda>(s, l). \<lparr>fileName = m_directory r @ ''/'' @
                               (if m_ref r \<noteq> [] \<and> prefix (m_ref r) path
                                then drop (length (m_ref r)) path else path),
                             lineNumber = toInt num,
                             matchingLine = markerFree segs (pre @ boldRed @ tail),
                             matchStart = s, matchLength = l\<rparr>)
               (spans 0 segs)
         \<and> read_loop r None fi
             ((path @ NUL # num @ NUL # colorized segs (pre @ boldRed @ tail)) @ LF # later)
             resultList
           = read_loop r None fi later
               (processLine r (path @ NUL # num @ NUL # colorized segs (pre @ boldRed @ tail))
                  resultList)"
  using processLine_fields [OF assms(1,2), of r "colorized segs (pre @ boldRed @ tail)" resultList]
    scanMatches_colorized_unmatched [OF assms(3,4,5)]
    read_loop_line [OF assms(6) _ assms(7,8), of r later resultList]
  by (simp add: case_prod_beta)

text \<open>
  One pair, then plain text, then a start marker with no end marker: the record of the
  pair is kept, its line text keeps the unmatched start marker, and the next line is
  decoded.
\<close>

theorem processLine_unmatched_start_witness:
  "processLine \<lparr>m_directory = ''/repo'', m_ref = []\<rparr>
     (''a.txt'' @ NUL # ''3'' @ NUL #
        colorized [(''foo '', ''BAR'')] ('' and '' @ boldRed @ ''BAZ'')) []
   = [\<lparr>fileName = ''/repo/a.txt'', lineNumber = 3,
        matchingLine = ''foo BAR and '' @ boldRed @ ''BAZ'', matchStart = 4, matchLength = 3\<rparr>]
   \<and> read_loop \<lparr>m_directory = ''/repo'', m_ref = []\<rparr> None \<lparr>canceled = False, results = []\<rparr>
       ((''a.txt'' @ NUL # ''3'' @ NUL #
           colorized [(''foo '', ''BAR'')] ('' and '' @ boldRed @ ''BAZ'')) @ LF #
          ''a.txt'' @ NUL # ''4'' @ NUL # boldRed @ ''BAR'' @ resetColor) []
     = (None, \<lparr>canceled = False, results = []\<rparr>,
        [\<lparr>fileName = ''/repo/a.txt'', lineNumber = 3,
           matchingLine = ''foo BAR and '' @ boldRed @ ''BAZ'', matchStart = 4, matchLength = 3\<rparr>,
         \<lparr>fileName = ''/repo/a.txt'', lineNumber = 4, matchingLine = ''BAR'',
           matchStart = 0, matchLength = 3\<rparr>])"
proof -
  let ?r = "\<lparr>m_directory = ''/repo'', m_ref = []\<rparr>"
  let ?line = "''a.txt'' @ NUL # ''3'' @ NUL #
        colorized [(''foo '', ''BAR'')] ('' and '' @ boldRed @ ''BAZ'')"
  let ?next = "''a.txt'' @ NUL # ''4'' @ NUL # boldRed @ ''BAR'' @ resetColor"
  let ?rec = "\<lparr>fileName = ''/repo/a.txt'', lineNumber = 3,
        matchingLine = ''foo BAR and '' @ boldRed @ ''BAZ'', matchStart = 4, matchLength = 3\<rparr>"
  have h1: "NUL \<notin> set ''a.txt''" by code_simp
  have h2: "NUL \<notin> set ''3''" by code_simp
  have h3: "\<not> sublist boldRed (markerFree [(''foo '', ''BAR'')] '' and '')" by code_simp
  have h4: "\<forall>(p, h) \<in> set [(''foo '', ''BAR'')]. \<not> sublist resetColor h" by code_simp
  have h5: "\<not> sublist resetColor ''BAZ''" by code_simp
  have h6: "LF \<notin> set ?line" by code_simp
  have h7: "last ?line \<noteq> CR" by code_simp
  have h8: "\<not> canceled \<lparr>canceled = False, results = []\<rparr>" by simp
  have v: "toInt ''3'' = 3" by code_simp
  note t = processLine_unmatched_start [OF h1 h2 h3 h4 h5 h6 h7 h8,
      where r = ?r and resultList = "[]" and later = ?next]
  from t [THEN conjunct1] v have a: "processLine ?r ?line [] = [?rec]"
    by simp
  have n: "read_loop ?r None \<lparr>canceled = False, results = []\<rparr> ?next [?rec]
           = (None, \<lparr>canceled = False, results = []\<rparr>,
              [?rec, \<lparr>fileName = ''/repo/a.txt'', lineNumber = 4, matchingLine = ''BAR'',
                 matchStart = 0, matchLength = 3\<rparr>])"
    by code_simp
  from t [THEN conjunct2] a n show ?thesis
    by (simp only:)
qed

text \<open>
  The claim as it stands fails: the pair before the unmatched start marker is reported,
  and the line text of its record still has the start marker in it.
\<close>

theorem processLine_unmatched_start_counterexample:
  "processLine \<lparr>m_directory = ''/repo'', m_ref = []\<rparr>
     (''a.txt'' @ NUL # ''3'' @ NUL # boldRed @ ''A'' @ resetColor @ '' '' @ boldRed @ ''B'') []
   = [\<lparr>fileName = ''/repo/a.txt'', lineNumber = 3, matchingLine = ''A '' @ boldRed @ ''B'',
        matchStart = 0, matchLength = 1\<rparr>]
   \<and> sublist boldRed (''A '' @ boldRed @ ''B'')"
  by code_simp

subsection \<open>A run that the caller does not cancel\<close>

lemma observe_None: "observe None fi = (None, fi)"
  by simp

lemma read_loop_not_canceled:
  "\<not> canceled fi \<Longrightarrow> fst (read_loop r None fi stream resultList) = None
     \<and> fst (snd (read_loop r None fi stream resultList)) = fi"
proof (induction r "None :: nat option" fi stream resultList rule: read_loop.induct)
  case (1 r fi stream resultList)
  show ?case
  proof (cases "atEnd stream")
    case True
    then show ?thesis by (subst (1 2) read_loop.simps) simp
  next
    case False
    with 1 show ?thesis
      by (subst (1 2) read_loop.simps) (simp add: isCanceled_def)
  qed
qed

lemma read_not_canceled:
  assumes "\<not> canceled fi"
  shows "fst (read r None fi chunk) = None \<and> \<not> canceled (snd (read r None fi chunk))"
  using read_loop_not_canceled [OF assms, of r chunk "[]"] assms
  by (cases "read_loop r None fi chunk []") (auto simp: read_def reportResult_def)

lemma run_reads_not_canceled:
  "\<not> canceled fi \<Longrightarrow> \<not> canceled (snd (run_reads r None fi chunks))"
proof (induction chunks arbitrary: fi)
  case Nil
  then show ?case by simp
next
  case (Cons chunk chunks)
  from read_not_canceled [OF Cons.prems, of r chunk]
  obtain fi' where "read r None fi chunk = (None, fi')" "\<not> canceled fi'"
    by (cases "read r None fi chunk") auto
  with Cons.IH [of fi'] show ?case by simp
qed

subsection \<open>Claims about \<open>exec\<close> and \<open>openEditor\<close>\<close>

text \<open>
  Claim C7, as the code has it. With a reference that is not empty, \<open>exec\<close> sets
  \<open>m_ref\<close> to the reference and a colon. The path of a line that starts with \<open>m_ref\<close>
  loses it, and the file name of every record of the line is the directory, a slash and
  the rest of the path: with the reference \<open>main\<close> and the directory \<open>/repo\<close> the path
  \<open>main:src/a.txt\<close> is reported as \<open>/repo/src/a.txt\<close>.
\<close>

theorem processLine_strips_ref:
  assumes "ref (extensionParameters parameters) \<noteq> []"
    and "NUL \<notin> set (ref (extensionParameters parameters))"
    and "NUL \<notin> set path" "NUL \<notin> set num"
  shows "m_ref (exec_runner parameters (GitGrepRunner_init parameters))
         = ref (extensionParameters parameters) @ '':''
         \<and> (\<forall>x \<in> set (processLine (exec_runner parameters (GitGrepRunner_init parameters))
                          ((ref (extensionParameters parameters) @ '':'' @ path)
                             @ NUL # num @ NUL # body) []).
                fileName x = additionalParameters parameters @ ''/'' @ path)"
proof -
  let ?r = "exec_runner parameters (GitGrepRunner_init parameters)"
  let ?ref = "ref (extensionParameters parameters)"
  from assms(1) have m: "m_ref ?r = ?ref @ '':''" and d: "m_directory ?r = additionalParameters parameters"
    by (simp_all add: exec_runner_def GitGrepRunner_init_def Let_def)
  from assms(2,3) have "NUL \<notin> set (?ref @ '':'' @ path)"
    by (simp add: NUL_def)
  from processLine_fields [OF this assms(4), of ?r body "[]"] m d
  show ?thesis by simp
qed

theorem processLine_strips_ref_witness:
  "map fileName
     (processLine
        (exec_runner
           \<lparr>searchText = ''BAR'', flags = {}, nameFilters = [], additionalParameters = ''/repo'',
              extensionParameters = \<lparr>ref = ''main'', isEnabled = True\<rparr>\<rparr>
           (GitGrepRunner_init
              \<lparr>searchText = ''BAR'', flags = {}, nameFilters = [], additionalParameters = ''/repo'',
                 extensionParameters = \<lparr>ref = ''main'', isEnabled = True\<rparr>\<rparr>))
        ((''main'' @ '':'' @ ''src/a.txt'') @ NUL # ''10'' @ NUL # ''foo '' @ boldRed @ ''BAR'' @ resetColor) [])
   = [''/repo/src/a.txt'']"
proof -
  let ?p = "\<lparr>searchText = ''BAR'', flags = {}, nameFilters = [], additionalParameters = ''/repo'',
              extensionParameters = \<lparr>ref = ''main'', isEnabled = True\<rparr>\<rparr>"
  have h1: "ref (extensionParameters ?p) \<noteq> []" by simp
  have h2: "NUL \<notin> set (ref (extensionParameters ?p))" by (simp add: NUL_def)
  have h3: "NUL \<notin> set ''src/a.txt''" by code_simp
  have h4: "NUL \<notin> set ''10''" by code_simp
  have n: "length (processLine (exec_runner ?p (GitGrepRunner_init ?p))
        ((''main'' @ '':'' @ ''src/a.txt'') @ NUL # ''10'' @ NUL # ''foo '' @ boldRed @ ''BAR'' @ resetColor) [])
     = 1"
    by code_simp
  from processLine_strips_ref [OF h1 h2 h3 h4, where body = "''foo '' @ boldRed @ ''BAR'' @ resetColor"]
  have "\<forall>x \<in> set (processLine (exec_runner ?p (GitGrepRunner_init ?p))
        ((''main'' @ '':'' @ ''src/a.txt'') @ NUL # ''10'' @ NUL # ''foo '' @ boldRed @ ''BAR'' @ resetColor) []).
          fileName x = ''/repo/src/a.txt''"
    by simp
  with n show ?thesis
    by (cases "processLine (exec_runner ?p (GitGrepRunner_init ?p))
        ((''main'' @ '':'' @ ''src/a.txt'') @ NUL # ''10'' @ NUL # ''foo '' @ boldRed @ ''BAR'' @ resetColor) []")
       auto
qed

text \<open>
  The reported path is not \<open>src/a.txt\<close> itself: the directory and a slash come first,
  also when the directory is empty.
\<close>

theorem processLine_strips_ref_counterexample:
  "map fileName
     (processLine \<lparr>m_directory = [], m_ref = ''main:''\<rparr>
        (''main:src/a.txt'' @ NUL # ''10'' @ NUL # ''foo '' @ boldRed @ ''BAR'' @ resetColor) [])
   = [''/src/a.txt'']
   \<and> map fileName
     (processLine \<lparr>m_directory = ''/repo'', m_ref = ''main:''\<rparr>
        (''main:src/a.txt'' @ NUL # ''10'' @ NUL # ''foo '' @ boldRed @ ''BAR'' @ resetColor) [])
   \<noteq> [''src/a.txt'']"
  by code_simp

text \<open>
  Claim C9. The arguments of the tool are the five fixed ones, the options, the search
  text, the reference when it is not empty, \<open>--\<close> and the file name filters, in this
  order. Among the options \<open>-i\<close> stands exactly when the search is not case sensitive,
  \<open>-w\<close> exactly when whole words are asked for, \<open>-P\<close> exactly when the text is a
  regular expression and \<open>-F\<close> exactly when it is not.
\<close>

theorem exec_arguments_shape:
  "\<exists>opts. exec_arguments parameters
            = [''-c'', ''color.grep.match=bold red'', ''grep'', ''-zn'', ''--color=always'']
              @ opts @ [searchText parameters]
              @ (if ref (extensionParameters parameters) = [] then []
                 else [ref (extensionParameters parameters)])
              @ [''--''] @ nameFilters parameters
          \<and> set opts \<subseteq> {''-i'', ''-w'', ''-P'', ''-F''}
          \<and> distinct opts
          \<and> (''-i'' \<in> set opts) = (FindCaseSensitively \<notin> flags parameters)
          \<and> (''-w'' \<in> set opts) = (FindWholeWords \<in> flags parameters)
          \<and> (''-P'' \<in> set opts) = (FindRegularExpression \<in> flags parameters)
          \<and> (''-F'' \<in> set opts) = (FindRegularExpression \<notin> flags parameters)"
proof -
  let ?opts = "(if FindCaseSensitively \<notin> flags parameters then [''-i''] else [])
               @ (if FindWholeWords \<in> flags parameters then [''-w''] else [])
               @ [if FindRegularExpression \<in> flags parameters then ''-P'' else ''-F'']"
  have "exec_arguments parameters
        = [''-c'', ''color.grep.match=bold red'', ''grep'', ''-zn'', ''--color=always'']
          @ ?opts @ [searchText parameters]
          @ (if ref (extensionParameters parameters) = [] then []
             else [ref (extensionParameters parameters)])
          @ [''--''] @ nameFilters parameters"
    by (simp add: exec_arguments_def Let_def)
  moreover have "set ?opts \<subseteq> {''-i'', ''-w'', ''-P'', ''-F''}" by auto
  moreover have "distinct ?opts" by simp
  moreover have "(''-i'' \<in> set ?opts) = (FindCaseSensitively \<notin> flags parameters)" by simp
  moreover have "(''-w'' \<in> set ?opts) = (FindWholeWords \<in> flags parameters)" by simp
  moreover have "(''-P'' \<in> set ?opts) = (FindRegularExpression \<in> flags parameters)" by simp
  moreover have "(''-F'' \<in> set ?opts) = (FindRegularExpression \<notin> flags parameters)" by simp
  ultimately show ?thesis by blast
qed

text \<open>
  Claim C8, as the code has it. \<open>openEditor\<close> returns no editor exactly in these
  cases: the extension is off, the reference is empty, the item has no path,
  \<open>git show\<close> fails, the content at the revision is empty, or the file is read from
  the disk with success and its content is the content at the revision. In every other
  case it returns a temporary editor that holds the content at the revision, at the line
  and column of the item.
\<close>

theorem openEditor_same_content:
  "(openEditor host item parameters = None)
   = (\<not> isEnabled (extensionParameters parameters)
      \<or> ref (extensionParameters parameters) = []
      \<or> item_path item = []
      \<or> synchronousShow host (additionalParameters parameters)
           (ref (extensionParameters parameters) @ '':./'' @
              relativeFilePath host (additionalParameters parameters)
                (fromNativeSeparators host (hd (item_path item)))) = None
      \<or> synchronousShow host (additionalParameters parameters)
           (ref (extensionParameters parameters) @ '':./'' @
              relativeFilePath host (additionalParameters parameters)
                (fromNativeSeparators host (hd (item_path item)))) = Some []
      \<or> readFileUTF8 host (fromNativeSeparators host (hd (item_path item)))
          = synchronousShow host (additionalParameters parameters)
              (ref (extensionParameters parameters) @ '':./'' @
                 relativeFilePath host (additionalParameters parameters)
                   (fromNativeSeparators host (hd (item_path item)))))
   \<and> (\<forall>e. openEditor host item parameters = Some e \<longrightarrow>
          synchronousShow host (additionalParameters parameters)
            (ref (extensionParameters parameters) @ '':./'' @
               relativeFilePath host (additionalParameters parameters)
                 (fromNativeSeparators host (hd (item_path item))))
          = Some (editor_contents e)
          \<and> editor_temporary e
          \<and> editor_line e = item_lineNumber item
          \<and> editor_column e = item_textMarkPos item)"
  by (auto simp: openEditor_def Let_def split: option.splits if_splits)

theorem openEditor_same_content_witness:
  "openEditor
     \<lparr>fromNativeSeparators = (\<lambda>p. p), relativeFilePath = (\<lambda>d p. drop (Suc (length d)) p),
        synchronousShow = (\<lambda>d i. if i = ''main:./a.txt'' then Some ''old'' else None),
        readFileUTF8 = (\<lambda>p. if p = ''/repo/a.txt'' then Some ''old'' else None),
        showTitle = (\<lambda>r p. ''Git Show '' @ r @ '':'' @ p)\<rparr>
     \<lparr>item_path = [''/repo/a.txt''], item_lineNumber = 3, item_textMarkPos = 0\<rparr>
     \<lparr>searchText = ''x'', flags = {}, nameFilters = [], additionalParameters = ''/repo'',
        extensionParameters = \<lparr>ref = ''main'', isEnabled = True\<rparr>\<rparr>
   = None
   \<and> (\<exists>e. openEditor
     \<lparr>fromNativeSeparators = (\<lambda>p. p), relativeFilePath = (\<lambda>d p. drop (Suc (length d)) p),
        synchronousShow = (\<lambda>d i. if i = ''main:./a.txt'' then Some ''old'' else None),
        readFileUTF8 = (\<lambda>p. if p = ''/repo/a.txt'' then Some ''new'' else None),
        showTitle = (\<lambda>r p. ''Git Show '' @ r @ '':'' @ p)\<rparr>
     \<lparr>item_path = [''/repo/a.txt''], item_lineNumber = 3, item_textMarkPos = 0\<rparr>
     \<lparr>searchText = ''x'', flags = {}, nameFilters = [], additionalParameters = ''/repo'',
        extensionParameters = \<lparr>ref = ''main'', isEnabled = True\<rparr>\<rparr>
     = Some e \<and> editor_contents e = ''old'' \<and> editor_temporary e)"
proof -
  let ?same = "\<lparr>fromNativeSeparators = (\<lambda>p. p), relativeFilePath = (\<lambda>d p. drop (Suc (length d)) p),
        synchronousShow = (\<lambda>d i. if i = ''main:./a.txt'' then Some ''old'' else None),
        readFileUTF8 = (\<lambda>p. if p = ''/repo/a.txt'' then Some ''old'' else None),
        showTitle = (\<lambda>r p. ''Git Show '' @ r @ '':'' @ p)\<rparr>"
  let ?changed = "\<lparr>fromNativeSeparators = (\<lambda>p. p), relativeFilePath = (\<lambda>d p. drop (Suc (length d)) p),
        synchronousShow = (\<lambda>d i. if i = ''main:./a.txt'' then Some ''old'' else None),
        readFileUTF8 = (\<lambda>p. if p = ''/repo/a.txt'' then Some ''new'' else None),
        showTitle = (\<lambda>r p. ''Git Show '' @ r @ '':'' @ p)\<rparr>"
  let ?item = "\<lparr>item_path = [''/repo/a.txt''], item_lineNumber = 3, item_textMarkPos = 0\<rparr>"
  let ?p = "\<lparr>searchText = ''x'', flags = {}, nameFilters = [], additionalParameters = ''/repo'',
        extensionParameters = \<lparr>ref = ''main'', isEnabled = True\<rparr>\<rparr>"
  have a: "openEditor ?same ?item ?p = None"
    using openEditor_same_content [of ?same ?item ?p] by simp
  from openEditor_same_content [of ?changed ?item ?p]
  have n: "openEditor ?changed ?item ?p \<noteq> None"
    and c: "\<forall>e. openEditor ?changed ?item ?p = Some e \<longrightarrow>
               Some ''old'' = Some (editor_contents e) \<and> editor_temporary e"
    by simp_all
  from n obtain e where e: "openEditor ?changed ?item ?p = Some e" by blast
  with c have "editor_contents e = ''old'' \<and> editor_temporary e" by simp
  with e have b: "\<exists>e. openEditor ?changed ?item ?p = Some e
                   \<and> editor_contents e = ''old'' \<and> editor_temporary e"
    by blast
  from a b show ?thesis by blast
qed

text \<open>
  The claim as it stands fails: \<open>openEditor\<close> returns no editor also when the content
  at the revision is empty, whatever the file on the disk holds, and when the extension
  is off.
\<close>

theorem openEditor_same_content_counterexample:
  "openEditor
     \<lparr>fromNativeSeparators = (\<lambda>p. p), relativeFilePath = (\<lambda>d p. drop (Suc (length d)) p),
        synchronousShow = (\<lambda>d i. if i = ''main:./a.txt'' then Some [] else None),
        readFileUTF8 = (\<lambda>p. if p = ''/repo/a.txt'' then Some ''new'' else None),
        showTitle = (\<lambda>r p. ''Git Show '' @ r @ '':'' @ p)\<rparr>
     \<lparr>item_path = [''/repo/a.txt''], item_lineNumber = 3, item_textMarkPos = 0\<rparr>
     \<lparr>searchText = ''x'', flags = {}, nameFilters = [], additionalParameters = ''/repo'',
        extensionParameters = \<lparr>ref = ''main'', isEnabled = True\<rparr>\<rparr>
   = None
   \<and> Some [] \<noteq> Some ''new''"
  by (simp add: openEditor_def)

subsection \<open>A run that the caller cancels\<close>

lemma observe_canceled:
  "canceled fi \<Longrightarrow> canceled (snd (observe sched fi))"
  by (cases "(sched, fi)" rule: observe.cases) auto

lemma observe_results:
  "results (snd (observe sched fi)) = results fi"
  by (cases "(sched, fi)" rule: observe.cases) auto

lemma read_loop_results:
  "results (fst (snd (read_loop r sched fi stream resultList))) = results fi
   \<and> (canceled fi \<longrightarrow> canceled (fst (snd (read_loop r sched fi stream resultList)))
        \<and> snd (snd (read_loop r sched fi stream resultList)) = resultList)"
proof (induction r sched fi stream resultList rule: read_loop.induct)
  case (1 r sched fi stream resultList)
  show ?case
  proof (cases "atEnd stream")
    case True
    then show ?thesis by (subst (1 2 3) read_loop.simps) simp
  next
    case False
    obtain sched' fi' where o: "observe sched fi = (sched', fi')"
      by (cases "observe sched fi")
    from o observe_results [of sched fi] have r: "results fi' = results fi" by simp
    from o observe_canceled [of fi sched] have c: "canceled fi \<longrightarrow> canceled fi'" by auto
    show ?thesis
    proof (cases "isCanceled fi'")
      case True
      with False o r show ?thesis
        by (subst (1 2 3) read_loop.simps) (simp add: isCanceled_def)
    next
      case nc: False
      from "1.IH" [OF False o [symmetric] _ nc] r c nc False o show ?thesis
        by (subst (1 2 3) read_loop.simps) (simp add: isCanceled_def)
    qed
  qed
qed

lemma read_canceled:
  "canceled (snd (read r sched fi chunk)) \<Longrightarrow> results (snd (read r sched fi chunk)) = results fi"
proof -
  assume c: "canceled (snd (read r sched fi chunk))"
  obtain s1 fi1 rl where l: "read_loop r sched fi chunk [] = (s1, fi1, rl)"
    by (cases "read_loop r sched fi chunk []")
  from read_loop_results [of r sched fi chunk "[]"] l have r1: "results fi1 = results fi" by simp
  show ?thesis
  proof (cases "rl = []")
    case True
    with l r1 show ?thesis by (simp add: read_def)
  next
    case False
    obtain s2 fi2 where o: "observe s1 fi1 = (s2, fi2)" by (cases "observe s1 fi1")
    from o observe_results [of s1 fi1] r1 have r2: "results fi2 = results fi" by simp
    from False l o have e: "snd (read r sched fi chunk) = reportResult fi2 rl"
      by (simp add: read_def)
    with c have "canceled fi2" by (simp add: reportResult_def split: if_splits)
    with e r2 show ?thesis by (simp add: reportResult_def)
  qed
qed

lemma read_stays_canceled:
  "canceled fi \<Longrightarrow> canceled (snd (read r sched fi chunk))"
proof -
  assume c: "canceled fi"
  obtain s1 fi1 rl where l: "read_loop r sched fi chunk [] = (s1, fi1, rl)"
    by (cases "read_loop r sched fi chunk []")
  from read_loop_results [of r sched fi chunk "[]"] l c have "canceled fi1" "rl = []" by simp_all
  with l show ?thesis by (simp add: read_def)
qed

lemma run_reads_canceled:
  "canceled fi \<Longrightarrow> canceled (snd (run_reads r sched fi chunks))
     \<and> results (snd (run_reads r sched fi chunks)) = results fi"
proof (induction chunks arbitrary: sched fi)
  case Nil
  then show ?case by simp
next
  case (Cons chunk chunks)
  obtain s' fi' where rd: "read r sched fi chunk = (s', fi')" by (cases "read r sched fi chunk")
  from read_stays_canceled [OF Cons.prems, of r sched chunk] rd have c: "canceled fi'" by simp
  from read_canceled [of r sched fi chunk] rd c have "results fi' = results fi" by simp
  with Cons.IH [OF c, of s'] rd show ?case by simp
qed

subsection \<open>Claims about \<open>read\<close>\<close>

text \<open>
  Claim C4. Whenever the caller's cancellation lands, a call of \<open>read\<close> that ends with
  the future canceled has reported nothing: the records of the chunk it was decoding are
  dropped. Once the future is canceled it stays canceled, and no later chunk adds a
  batch. The flag is looked at before every line; before the batch is stored it is
  \<open>reportResult\<close> that looks at it.
\<close>

theorem read_canceled_reports_nothing:
  "(canceled (snd (read r sched fi chunk)) \<longrightarrow> results (snd (read r sched fi chunk)) = results fi)
   \<and> (canceled fi \<longrightarrow>
        canceled (snd (run_reads r sched fi chunks))
        \<and> results (snd (run_reads r sched fi chunks)) = results fi)"
  using read_canceled [of r sched fi chunk] run_reads_canceled [of fi r sched chunks]
  by blast

text \<open>
  Two lines with a match each in one chunk. The cancellation lands after the first line:
  nothing is reported. It lands when the batch is handed over: nothing is reported. It
  does not come: one batch of two records.
\<close>

theorem read_canceled_reports_nothing_witness:
  "results (snd (read \<lparr>m_directory = ''/repo'', m_ref = []\<rparr> (Some 1)
                   \<lparr>canceled = False, results = []\<rparr>
                   (''a'' @ NUL # ''1'' @ NUL # boldRed @ ''x'' @ resetColor @ LF #
                    ''a'' @ NUL # ''2'' @ NUL # boldRed @ ''x'' @ resetColor @ [LF])))
   = []
   \<and> results (snd (read \<lparr>m_directory = ''/repo'', m_ref = []\<rparr> (Some 2)
                   \<lparr>canceled = False, results = []\<rparr>
                   (''a'' @ NUL # ''1'' @ NUL # boldRed @ ''x'' @ resetColor @ LF #
                    ''a'' @ NUL # ''2'' @ NUL # boldRed @ ''x'' @ resetColor @ [LF])))
   = []
   \<and> map length (results (snd (read \<lparr>m_directory = ''/repo'', m_ref = []\<rparr> None
                   \<lparr>canceled = False, results = []\<rparr>
                   (''a'' @ NUL # ''1'' @ NUL # boldRed @ ''x'' @ resetColor @ LF #
                    ''a'' @ NUL # ''2'' @ NUL # boldRed @ ''x'' @ resetColor @ [LF]))))
   = [2]
   \<and> results (snd (run_reads \<lparr>m_directory = ''/repo'', m_ref = []\<rparr> None
                   \<lparr>canceled = True, results = []\<rparr>
                   [''a'' @ NUL # ''1'' @ NUL # boldRed @ ''x'' @ resetColor @ [LF],
                    ''a'' @ NUL # ''2'' @ NUL # boldRed @ ''x'' @ resetColor @ [LF]]))
   = []"
proof -
  let ?r = "\<lparr>m_directory = ''/repo'', m_ref = []\<rparr>"
  let ?fi = "\<lparr>canceled = False, results = []\<rparr>"
  let ?l1 = "''a'' @ NUL # ''1'' @ NUL # boldRed @ ''x'' @ resetColor @ [LF]"
  let ?l2 = "''a'' @ NUL # ''2'' @ NUL # boldRed @ ''x'' @ resetColor @ [LF]"
  let ?chunk = "''a'' @ NUL # ''1'' @ NUL # boldRed @ ''x'' @ resetColor @ LF #
                    ''a'' @ NUL # ''2'' @ NUL # boldRed @ ''x'' @ resetColor @ [LF]"
  have c1: "canceled (snd (read ?r (Some 1) ?fi ?chunk))" by code_simp
  have c2: "canceled (snd (read ?r (Some 2) ?fi ?chunk))" by code_simp
  have n: "map length (results (snd (read ?r None ?fi ?chunk))) = [2]" by code_simp
  from read_canceled_reports_nothing [of ?r "Some 1" ?fi ?chunk] c1
  have a: "results (snd (read ?r (Some 1) ?fi ?chunk)) = []" by simp
  from read_canceled_reports_nothing [of ?r "Some 2" ?fi ?chunk] c2
  have b: "results (snd (read ?r (Some 2) ?fi ?chunk)) = []" by simp
  from read_canceled_reports_nothing [of ?r None "\<lparr>canceled = True, results = []\<rparr>" "[]" "[?l1, ?l2]"]
  have c: "results (snd (run_reads ?r None \<lparr>canceled = True, results = []\<rparr> [?l1, ?l2])) = []"
    by simp
  from a b n c show ?thesis by (simp only:)
qed

subsection \<open>Chunks that end where a line ends\<close>

lemma processLine_append:
  "processLine r l resultList = resultList @ processLine r l []"
  by (simp add: processLine_def Let_def)

lemma read_loop_lines:
  "\<not> canceled fi \<Longrightarrow>
     read_loop r None fi stream resultList
     = (None, fi, resultList @ concat (map (\<lambda>l. processLine r l []) (linesOf stream)))"
proof (induction r "None :: nat option" fi stream resultList rule: read_loop.induct)
  case (1 r fi stream resultList)
  show ?case
  proof (cases "atEnd stream")
    case True
    then show ?thesis
      by (subst read_loop.simps, subst linesOf.simps) simp
  next
    case False
    with 1 show ?thesis
      using processLine_append [of r "fst (readLine stream)" resultList]
      by (subst read_loop.simps, subst linesOf.simps) (simp add: isCanceled_def)
  qed
qed

lemma readLine_append:
  assumes "LF \<in> set a"
  shows "fst (readLine (a @ b)) = fst (readLine a)"
    and "snd (readLine (a @ b)) = snd (readLine a) @ b"
proof -
  from assms have t: "takeWhile (\<lambda>c. c \<noteq> LF) (a @ b) = takeWhile (\<lambda>c. c \<noteq> LF) a"
    by (induction a) auto
  from assms have "length (takeWhile (\<lambda>c. c \<noteq> LF) a) < length a"
    by (induction a) auto
  with t show "fst (readLine (a @ b)) = fst (readLine a)"
    and "snd (readLine (a @ b)) = snd (readLine a) @ b"
    by (simp_all add: readLine_def Let_def)
qed

lemma endsLines_rest:
  assumes "endsLines a" "a \<noteq> []"
  shows "endsLines (snd (readLine a))"
proof -
  from assms have l: "last a = LF" by (simp add: endsLines_def)
  show ?thesis
  proof (cases "snd (readLine a) = []")
    case True
    then show ?thesis by (simp add: endsLines_def)
  next
    case False
    then have "last (snd (readLine a)) = last a"
      by (simp add: readLine_def Let_def last_drop)
    with l show ?thesis by (simp add: endsLines_def)
  qed
qed

lemma linesOf_append:
  "endsLines a \<Longrightarrow> linesOf (a @ b) = linesOf a @ linesOf b"
proof (induction a rule: linesOf.induct)
  case (1 a)
  show ?case
  proof (cases "a = []")
    case True
    then show ?thesis by (subst (2) linesOf.simps) (simp add: atEnd_def)
  next
    case False
    with "1.prems" have "last a = LF" by (simp add: endsLines_def)
    with False have m: "LF \<in> set a" by (metis last_in_set)
    from False have ne: "\<not> atEnd a" "\<not> atEnd (a @ b)" by (simp_all add: atEnd_def)
    from "1.IH" [OF ne(1) endsLines_rest [OF "1.prems" False]]
    have ih: "linesOf (snd (readLine a) @ b) = linesOf (snd (readLine a)) @ linesOf b" .
    have "linesOf (a @ b) = fst (readLine a) # linesOf (snd (readLine a) @ b)"
      using ne(2) readLine_append [OF m, of b] by (subst linesOf.simps) simp
    also have "\<dots> = (fst (readLine a) # linesOf (snd (readLine a))) @ linesOf b"
      using ih by simp
    also have "fst (readLine a) # linesOf (snd (readLine a)) = linesOf a"
      using ne(1) by (subst (2) linesOf.simps) simp
    finally show ?thesis .
  qed
qed

lemma read_records:
  assumes "\<not> canceled fi"
  shows "concat (results (snd (read r None fi chunk)))
         = concat (results fi) @ concat (map (\<lambda>l. processLine r l []) (linesOf chunk))"
  using read_loop_lines [OF assms, of r chunk "[]"] assms
  by (simp add: read_def reportResult_def)

lemma run_reads_records:
  assumes "\<forall>c \<in> set cs. endsLines c" "\<not> canceled fi"
  shows "concat (results (snd (run_reads r None fi cs)))
         = concat (results fi) @ concat (map (\<lambda>l. processLine r l []) (linesOf (concat cs)))"
  using assms
proof (induction cs arbitrary: fi)
  case Nil
  then show ?case by (subst linesOf.simps) (simp add: atEnd_def)
next
  case (Cons c cs)
  from read_not_canceled [OF Cons.prems(2), of r c]
  obtain fi' where rd: "read r None fi c = (None, fi')" and nc: "\<not> canceled fi'"
    by (cases "read r None fi c") auto
  from Cons.prems(1) have al: "\<forall>c \<in> set cs. endsLines c" and ec: "endsLines c" by simp_all
  from read_records [OF Cons.prems(2), of r c] rd
  have r1: "concat (results fi')
            = concat (results fi) @ concat (map (\<lambda>l. processLine r l []) (linesOf c))"
    by simp
  from Cons.IH [OF al nc] rd r1 linesOf_append [OF ec, of "concat cs"]
  show ?case by simp
qed

text \<open>
  Claim C2, as the code has it. \<open>read\<close> opens a new stream on every chunk and keeps
  nothing from one call to the next: the end of a chunk ends its last line. When every
  chunk ends where a line ends and the caller does not cancel, two ways of cutting the
  same output into chunks give the same records in the same order.
\<close>

theorem run_reads_rechunk:
  assumes "\<forall>c \<in> set cs. endsLines c" "\<forall>d \<in> set ds. endsLines d"
    and "concat cs = concat ds" "\<not> canceled fi"
  shows "concat (results (snd (run_reads r None fi cs)))
         = concat (results (snd (run_reads r None fi ds)))"
  using run_reads_records [OF assms(1,4), of r] run_reads_records [OF assms(2,4), of r] assms(3)
  by simp

theorem run_reads_rechunk_witness:
  "concat (results (snd (run_reads \<lparr>m_directory = ''/repo'', m_ref = []\<rparr> None
       \<lparr>canceled = False, results = []\<rparr>
       [''a'' @ NUL # ''1'' @ NUL # boldRed @ ''x'' @ resetColor @ [LF],
        ''a'' @ NUL # ''2'' @ NUL # boldRed @ ''x'' @ resetColor @ [LF]])))
   = concat (results (snd (run_reads \<lparr>m_directory = ''/repo'', m_ref = []\<rparr> None
       \<lparr>canceled = False, results = []\<rparr>
       [(''a'' @ NUL # ''1'' @ NUL # boldRed @ ''x'' @ resetColor @ [LF])
          @ ''a'' @ NUL # ''2'' @ NUL # boldRed @ ''x'' @ resetColor @ [LF]])))
   \<and> length (concat (results (snd (run_reads \<lparr>m_directory = ''/repo'', m_ref = []\<rparr> None
       \<lparr>canceled = False, results = []\<rparr>
       [''a'' @ NUL # ''1'' @ NUL # boldRed @ ''x'' @ resetColor @ [LF],
        ''a'' @ NUL # ''2'' @ NUL # boldRed @ ''x'' @ resetColor @ [LF]]))))
     = 2"
proof -
  let ?l1 = "''a'' @ NUL # ''1'' @ NUL # boldRed @ ''x'' @ resetColor @ [LF]"
  let ?l2 = "''a'' @ NUL # ''2'' @ NUL # boldRed @ ''x'' @ resetColor @ [LF]"
  have h1: "\<forall>c \<in> set [?l1, ?l2]. endsLines c" by (simp add: endsLines_def)
  have h2: "\<forall>d \<in> set [?l1 @ ?l2]. endsLines d" by (simp add: endsLines_def)
  have h3: "concat [?l1, ?l2] = concat [?l1 @ ?l2]" by simp
  have h4: "\<not> canceled \<lparr>canceled = False, results = []\<rparr>" by simp
  have n: "length (concat (results (snd (run_reads \<lparr>m_directory = ''/repo'', m_ref = []\<rparr> None
       \<lparr>canceled = False, results = []\<rparr> [?l1, ?l2])))) = 2"
    by code_simp
  from run_reads_rechunk [OF h1 h2 h3 h4, of "\<lparr>m_directory = ''/repo'', m_ref = []\<rparr>"] n
  show ?thesis by (simp only:)
qed

text \<open>
  The claim as it stands fails: a chunk that ends inside a line cuts the line in two.
  The line of the scenario gives one record in one chunk and none when the chunk ends
  inside the match.
\<close>

theorem run_reads_rechunk_counterexample:
  "concat [''a.txt'' @ NUL # ''10'' @ NUL # ''foo '' @ boldRed @ ''BA'', ''R'' @ resetColor @ '' baz'' @ [LF]]
   = ''a.txt'' @ NUL # ''10'' @ NUL # ''foo '' @ boldRed @ ''BAR'' @ resetColor @ '' baz'' @ [LF]
   \<and> map length (results (snd (run_reads \<lparr>m_directory = ''/repo'', m_ref = []\<rparr> None
       \<lparr>canceled = False, results = []\<rparr>
       [''a.txt'' @ NUL # ''10'' @ NUL # ''foo '' @ boldRed @ ''BAR'' @ resetColor @ '' baz'' @ [LF]])))
     = [1]
   \<and> results (snd (run_reads \<lparr>m_directory = ''/repo'', m_ref = []\<rparr> None
       \<lparr>canceled = False, results = []\<rparr>
       [''a.txt'' @ NUL # ''10'' @ NUL # ''foo '' @ boldRed @ ''BA'',
        ''R'' @ resetColor @ '' baz'' @ [LF]]))
     = []"
  by code_simp

subsection \<open>Claim about how \<open>exec\<close> ends\<close>

text \<open>
  Claim C1, as the code has it. \<open>exec\<close> hands every chunk to \<open>read\<close> and then looks at
  how the process ended. When the process ends abnormally, does not start or hangs,
  \<open>exec\<close> reports the future as canceled: the outcome is \<open>Canceled\<close>, not
  \<open>Completed\<close>. After \<open>Finished\<close> and \<open>FinishedError\<close> the future is the one that the
  reads left, and the outcome is \<open>Completed\<close> unless the caller canceled. In every case
  the batches are those that the reads reported and no error is reported; when the
  caller does not cancel and the chunks end where lines end, the records are those of
  all the lines of the output, none when there was no output.
\<close>

theorem exec_outcome:
  "results (exec parameters sched chunks resp fi)
   = results (snd (run_reads (exec_runner parameters (GitGrepRunner_init parameters))
                      sched fi chunks))
   \<and> canceled (exec parameters sched chunks resp fi)
     = (resp \<in> {TerminatedAbnormally, StartFailed, Hang}
        \<or> canceled (snd (run_reads (exec_runner parameters (GitGrepRunner_init parameters))
                           sched fi chunks)))
   \<and> outcome (exec parameters sched chunks resp fi)
     = (if resp \<in> {TerminatedAbnormally, StartFailed, Hang}
           \<or> canceled (snd (run_reads (exec_runner parameters (GitGrepRunner_init parameters))
                              sched fi chunks))
        then Canceled else Completed)
   \<and> (resp \<in> {Finished, FinishedError} \<longrightarrow>
        exec parameters sched chunks resp fi
        = snd (run_reads (exec_runner parameters (GitGrepRunner_init parameters))
                 sched fi chunks))
   \<and> (\<not> canceled fi \<longrightarrow>
        outcome (exec parameters None chunks resp fi)
        = (if resp \<in> {TerminatedAbnormally, StartFailed, Hang} then Canceled else Completed))
   \<and> (\<not> canceled fi \<and> (\<forall>c \<in> set chunks. endsLines c) \<longrightarrow>
        concat (results (exec parameters None chunks resp fi))
        = concat (results fi)
          @ concat (map (\<lambda>l. processLine (exec_runner parameters (GitGrepRunner_init parameters))
                                 l [])
                      (linesOf (concat chunks))))"
proof -
  let ?r = "exec_runner parameters (GitGrepRunner_init parameters)"
  have e: "exec parameters s chunks resp fi = classify resp (snd (run_reads ?r s fi chunks))" for s
    by (simp add: exec_def Let_def case_prod_beta)
  have c: "results (classify resp f) = results f" for f
    by (cases resp) (simp_all add: reportCanceled_def)
  have k: "canceled (classify resp f)
           = (resp \<in> {TerminatedAbnormally, StartFailed, Hang} \<or> canceled f)" for f
    by (cases resp) (simp_all add: reportCanceled_def)
  have i: "resp \<in> {Finished, FinishedError} \<longrightarrow> classify resp f = f" for f
    by (cases resp) simp_all
  have n: "\<not> canceled fi \<longrightarrow> \<not> canceled (snd (run_reads ?r None fi chunks))"
    using run_reads_not_canceled [of fi ?r chunks] by blast
  have r: "\<not> canceled fi \<and> (\<forall>c \<in> set chunks. endsLines c) \<longrightarrow>
           concat (results (snd (run_reads ?r None fi chunks)))
           = concat (results fi) @ concat (map (\<lambda>l. processLine ?r l []) (linesOf (concat chunks)))"
    using run_reads_records [of chunks fi ?r] by blast
  show ?thesis
    unfolding e c k outcome_def using i n r by simp
qed

text \<open>
  One line with a match arrives and the process ends abnormally: the batch of the line
  is there and the outcome is \<open>Canceled\<close>. No output and an error status: no batch, and
  the outcome is \<open>Completed\<close>.
\<close>

theorem exec_outcome_witness:
  "outcome (exec \<lparr>searchText = ''BAR'', flags = {}, nameFilters = [],
                   additionalParameters = ''/repo'',
                   extensionParameters = \<lparr>ref = [], isEnabled = True\<rparr>\<rparr>
              None [''a.txt'' @ NUL # ''4'' @ NUL # boldRed @ ''BAR'' @ resetColor @ [LF]]
              TerminatedAbnormally \<lparr>canceled = False, results = []\<rparr>)
   = Canceled
   \<and> concat (results (exec \<lparr>searchText = ''BAR'', flags = {}, nameFilters = [],
                   additionalParameters = ''/repo'',
                   extensionParameters = \<lparr>ref = [], isEnabled = True\<rparr>\<rparr>
              None [''a.txt'' @ NUL # ''4'' @ NUL # boldRed @ ''BAR'' @ resetColor @ [LF]]
              TerminatedAbnormally \<lparr>canceled = False, results = []\<rparr>))
     = [\<lparr>fileName = ''/repo/a.txt'', lineNumber = 4, matchingLine = ''BAR'',
          matchStart = 0, matchLength = 3\<rparr>]
   \<and> outcome (exec \<lparr>searchText = ''BAR'', flags = {}, nameFilters = [],
                   additionalParameters = ''/repo'',
                   extensionParameters = \<lparr>ref = [], isEnabled = True\<rparr>\<rparr>
              None [] FinishedError \<lparr>canceled = False, results = []\<rparr>)
     = Completed
   \<and> results (exec \<lparr>searchText = ''BAR'', flags = {}, nameFilters = [],
                   additionalParameters = ''/repo'',
                   extensionParameters = \<lparr>ref = [], isEnabled = True\<rparr>\<rparr>
              None [] FinishedError \<lparr>canceled = False, results = []\<rparr>)
     = []"
proof -
  let ?p = "\<lparr>searchText = ''BAR'', flags = {}, nameFilters = [],
                   additionalParameters = ''/repo'',
                   extensionParameters = \<lparr>ref = [], isEnabled = True\<rparr>\<rparr>"
  let ?fi = "\<lparr>canceled = False, results = []\<rparr>"
  let ?chunk = "''a.txt'' @ NUL # ''4'' @ NUL # boldRed @ ''BAR'' @ resetColor @ [LF]"
  have h1: "\<not> canceled ?fi" by simp
  have h2: "\<forall>c \<in> set [?chunk]. endsLines c" by (simp add: endsLines_def)
  have v: "concat (map (\<lambda>l. processLine (exec_runner ?p (GitGrepRunner_init ?p)) l [])
                     (linesOf (concat [?chunk])))
           = [\<lparr>fileName = ''/repo/a.txt'', lineNumber = 4, matchingLine = ''BAR'',
                matchStart = 0, matchLength = 3\<rparr>]"
    by code_simp
  note t = exec_outcome [of ?p None "[?chunk]" TerminatedAbnormally ?fi]
  note u = exec_outcome [of ?p None "[]" FinishedError ?fi]
  from t h1 have a: "outcome (exec ?p None [?chunk] TerminatedAbnormally ?fi) = Canceled"
    by auto
  have z: "concat (results ?fi) = []" by simp
  from t h1 h2 have "concat (results (exec ?p None [?chunk] TerminatedAbnormally ?fi))
      = concat (results ?fi)
        @ concat (map (\<lambda>l. processLine (exec_runner ?p (GitGrepRunner_init ?p)) l [])
                    (linesOf (concat [?chunk])))"
    by blast
  with v z have b: "concat (results (exec ?p None [?chunk] TerminatedAbnormally ?fi))
      = [\<lparr>fileName = ''/repo/a.txt'', lineNumber = 4, matchingLine = ''BAR'',
           matchStart = 0, matchLength = 3\<rparr>]"
    by (simp only: append_Nil)
  from u h1 have c: "outcome (exec ?p None [] FinishedError ?fi) = Completed"
    by auto
  from u have "results (exec ?p None [] FinishedError ?fi)
               = results (snd (run_reads (exec_runner ?p (GitGrepRunner_init ?p)) None ?fi []))"
    by blast
  then have d: "results (exec ?p None [] FinishedError ?fi) = []"
    by simp
  from a b c d show ?thesis by (simp only:)
qed

text \<open>
  The claim as it stands fails: after an abnormal end the outcome is \<open>Canceled\<close>.
\<close>

theorem exec_outcome_counterexample:
  "outcome (exec \<lparr>searchText = ''BAR'', flags = {}, nameFilters = [],
                   additionalParameters = ''/repo'',
                   extensionParameters = \<lparr>ref = [], isEnabled = True\<rparr>\<rparr>
              None [] TerminatedAbnormally \<lparr>canceled = False, results = []\<rparr>)
   = Canceled
   \<and> Canceled \<noteq> Completed"
  by (simp add: exec_def exec_runner_def GitGrepRunner_init_def reportCanceled_def outcome_def)

end
